theory Spec2Isabelle
  imports Main "HOL-Library.Sublist" "HOL-Library.Multiset"
begin

section \<open>Data model of \<open>log_parser.py\<close>\<close>

text \<open>
  \<open>LogEntry\<close> is the dataclass of the source. Python strings are modelled as
  \<open>string\<close> (lists of characters with code points below 256), Python's unbounded
  integers as \<open>int\<close>.
\<close>

record LogEntry =
  ip :: string
  "method" :: string
  url :: string
  date :: string
  duration :: int

text \<open>
  The two \<open>defaultdict(int)\<close> counters are association lists in insertion order
  (a Python dictionary enumerates its keys in the order they were first stored), the
  slow list is a list of entries.
\<close>

record LogParser =
  total_requests :: int
  method_counts :: "(string \<times> int) list"
  ip_counts :: "(string \<times> int) list"
  slow_requests :: "LogEntry list"

datatype py_error = IndexError | ValueError | OSError

text \<open>\<open>LogParser.__init__\<close>\<close>

definition init :: LogParser where
  "init = \<lparr>total_requests = 0, method_counts = [], ip_counts = [], slow_requests = []\<rparr>"

text \<open>
  \<open>d[k] += 1\<close> on a \<open>defaultdict(int)\<close>: a key that is present keeps its position
  and has its count incremented; a missing key is first stored with 0 at the end of the
  dictionary and then incremented.
\<close>

fun incr :: "'k \<Rightarrow> ('k \<times> int) list \<Rightarrow> ('k \<times> int) list" where
  "incr k [] = [(k, 0 + 1)]"
| "incr k ((k', v) # d) = (if k' = k then (k', v + 1) # d else (k', v) # incr k d)"

text \<open>
  \<open>xs.sort(key=f, reverse=True)\<close> and \<open>sorted(xs, key=f, reverse=True)\<close>: CPython
  reverses the list, sorts it stably in ascending key order and reverses it again, so that
  elements with equal keys keep their original relative order. \<open>sort_key\<close> is the
  library's stable insertion sort.
\<close>

definition sort_reverse :: "('a \<Rightarrow> int) \<Rightarrow> 'a list \<Rightarrow> 'a list" where
  "sort_reverse f xs = rev (sort_key f (rev xs))"

text \<open>\<open>xs[-1]\<close> raises \<open>IndexError\<close> on the empty list.\<close>

definition last_item :: "'a list \<Rightarrow> py_error + 'a" where
  "last_item xs = (case xs of [] \<Rightarrow> Inl IndexError | _ # _ \<Rightarrow> Inr (last xs))"

text \<open>
  The slice \<open>xs[:n]\<close> for a Python integer \<open>n\<close>: a negative bound counts from the
  end of the list and is clamped at 0.
\<close>

definition slice_to :: "int \<Rightarrow> 'a list \<Rightarrow> 'a list" where
  "slice_to n xs = (if 0 \<le> n then take (nat n) xs else take (nat (int (length xs) + n)) xs)"

section \<open>The accumulator\<close>

text \<open>The three statements of the guarded block of \<open>process_entry\<close>.\<close>

definition admit :: "LogEntry \<Rightarrow> LogParser \<Rightarrow> LogParser" where
  "admit entry s =
     s\<lparr>slow_requests := slice_to 3 (sort_reverse duration (slow_requests s @ [entry]))\<rparr>"

text \<open>
  \<open>LogParser.process_entry\<close>. The \<open>or\<close> of the guard short-circuits: the last
  element of the slow list is read only when the list has three entries or more.
\<close>

definition process_entry :: "LogEntry \<Rightarrow> LogParser \<Rightarrow> py_error + LogParser" where
  "process_entry entry s =
     (let s1 = s\<lparr>total_requests := total_requests s + 1\<rparr>;
          s2 = s1\<lparr>method_counts := incr (method entry) (method_counts s1)\<rparr>;
          s3 = s2\<lparr>ip_counts := incr (ip entry) (ip_counts s2)\<rparr>
      in if length (slow_requests s3) < 3 then Inr (admit entry s3)
         else (case last_item (slow_requests s3) of
                 Inl e \<Rightarrow> Inl e
               | Inr l \<Rightarrow> if duration entry > duration l then Inr (admit entry s3) else Inr s3))"

text \<open>Calling \<open>process_entry\<close> on each record of a sequence in turn.\<close>

fun process_entries :: "LogEntry list \<Rightarrow> LogParser \<Rightarrow> py_error + LogParser" where
  "process_entries [] s = Inr s"
| "process_entries (e # es) s =
     (case process_entry e s of Inl err \<Rightarrow> Inl err | Inr s' \<Rightarrow> process_entries es s')"

text \<open>\<open>LogParser.get_top_ips\<close>\<close>

definition get_top_ips :: "int \<Rightarrow> LogParser \<Rightarrow> (string \<times> int) list" where
  "get_top_ips n s = slice_to n (sort_reverse snd (ip_counts s))"

text \<open>
  The order of first occurrence of the elements of a list (each element once, at the
  position of its first occurrence). It is used to state the order in which IP addresses
  were first seen.
\<close>

fun first_seen :: "'a list \<Rightarrow> 'a list" where
  "first_seen [] = []"
| "first_seen (x # xs) = x # removeAll x (first_seen xs)"

section \<open>The line grammar\<close>

text \<open>
  The constructs of Python's \<open>re\<close> syntax that \<open>LOG_PATTERN\<close> uses. A character
  set is \<open>\d\<close>, \<open>\S\<close> or \<open>.\<close>; \<open>Chars cs lo hi greedy\<close> is a character set
  with a repetition count (\<open>\d{1,3}\<close>, \<open>\d+\<close>, \<open>\S+\<close>: greedy; \<open>.*?\<close>: lazy),
  \<open>Str\<close> is literal text, \<open>Group\<close> a named group \<open>(?P<name>...)\<close>, \<open>Eol\<close>
  the anchor \<open>$\<close>.
\<close>

datatype charset = Digit | NonSpace | AnyChar

datatype regex =
    Chars charset nat "nat option" bool
  | Str string
  | Seq regex regex
  | Alt regex regex
  | Group string regex
  | Eol

text \<open>
  The pattern is a \<open>str\<close> pattern, so the character classes are the Unicode ones. Among
  the code points below 256, \<open>\d\<close> matches the ten ASCII digits, and the white space
  that \<open>\S\<close> excludes is the characters 9 to 13, 28 to 32, 133 and 160. Without the
  \<open>DOTALL\<close> flag \<open>.\<close> matches every character but the newline.
\<close>

definition is_digit :: "char \<Rightarrow> bool" where
  "is_digit c = (48 \<le> (of_char c :: nat) \<and> (of_char c :: nat) \<le> 57)"

definition is_space :: "char \<Rightarrow> bool" where
  "is_space c =
     ((9 \<le> (of_char c :: nat) \<and> (of_char c :: nat) \<le> 13) \<or>
      (28 \<le> (of_char c :: nat) \<and> (of_char c :: nat) \<le> 32) \<or>
      (of_char c :: nat) = 133 \<or> (of_char c :: nat) = 160)"

definition newline :: char where
  "newline = CHR 0x0A"

fun in_charset :: "charset \<Rightarrow> char \<Rightarrow> bool" where
  "in_charset Digit c = is_digit c"
| "in_charset NonSpace c = (\<not> is_space c)"
| "in_charset AnyChar c = (c \<noteq> newline)"

text \<open>
  The matcher is a backtracking one: it tries the alternatives of a pattern in a fixed
  order of priority and the first complete match wins. \<open>rep\<close> lists, in that order, the
  inputs that remain after matching between \<open>lo\<close> and \<open>hi\<close> characters of a set at
  the start of the input: a greedy repetition tries the longest run first, a lazy one the
  shortest.
\<close>

fun rep :: "charset \<Rightarrow> nat \<Rightarrow> nat option \<Rightarrow> bool \<Rightarrow> string \<Rightarrow> string list" where
  "rep cs lo hi greedy [] = (if lo = 0 then [[]] else [])"
| "rep cs lo hi greedy (c # s) =
     (let stop = (if lo = 0 then [c # s] else []);
          more = (if hi \<noteq> Some 0 \<and> in_charset cs c
                  then rep cs (lo - 1) (map_option (\<lambda>h. h - 1) hi) greedy s else [])
      in if greedy then more @ stop else stop @ more)"

text \<open>
  \<open>matches r s groups\<close> lists, in order of priority, the ways in which \<open>r\<close> matches at
  the start of \<open>s\<close>: the input that remains and the named groups bound so far (the
  latest binding first). The anchor \<open>$\<close> (without \<open>MULTILINE\<close>) matches at the end of
  the string and just before a newline that ends the string.
\<close>

fun matches :: "regex \<Rightarrow> string \<Rightarrow> (string \<times> string) list \<Rightarrow> (string \<times> (string \<times> string) list) list" where
  "matches (Chars cs lo hi greedy) s groups = map (\<lambda>s'. (s', groups)) (rep cs lo hi greedy s)"
| "matches (Str w) s groups = (if prefix w s then [(drop (length w) s, groups)] else [])"
| "matches (Seq r1 r2) s groups =
     concat (map (\<lambda>m. matches r2 (fst m) (snd m)) (matches r1 s groups))"
| "matches (Alt r1 r2) s groups = matches r1 s groups @ matches r2 s groups"
| "matches (Group name r) s groups =
     map (\<lambda>m. (fst m, (name, take (length s - length (fst m)) s) # snd m)) (matches r s groups)"
| "matches Eol s groups = (if s = [] \<or> s = [newline] then [(s, groups)] else [])"

text \<open>
  \<open>pattern.search(line)\<close>: the start positions are tried from left to right, and at
  each one the match of highest priority is taken. The result is the \<open>groupdict\<close> of the
  match, or \<open>None\<close>.
\<close>

fun search :: "regex \<Rightarrow> string \<Rightarrow> (string \<times> string) list option" where
  "search r [] = (case matches r [] [] of [] \<Rightarrow> None | m # _ \<Rightarrow> Some (snd m))"
| "search r (c # s) = (case matches r (c # s) [] of [] \<Rightarrow> search r s | m # _ \<Rightarrow> Some (snd m))"

text \<open>Sequences and alternatives of more than two patterns.\<close>

fun seq :: "regex list \<Rightarrow> regex" where
  "seq [] = Str []"
| "seq [r] = r"
| "seq (r # rs) = Seq r (seq rs)"

fun alt :: "regex \<Rightarrow> regex list \<Rightarrow> regex" where
  "alt r [] = r"
| "alt r (r' # rs) = Alt r (alt r' rs)"

text \<open>\<open>LogParser.LOG_PATTERN\<close>, one line of the definition for each line of the source.\<close>

definition LOG_PATTERN :: regex where
  "LOG_PATTERN = seq [
     Group ''ip'' (seq [Chars Digit 1 (Some 3) True, Str ''.'', Chars Digit 1 (Some 3) True, Str ''.'',
                       Chars Digit 1 (Some 3) True, Str ''.'', Chars Digit 1 (Some 3) True]),
       Chars AnyChar 0 None False,
     Str ''['', Group ''date'' (Chars AnyChar 0 None False), Str '']'', Chars AnyChar 0 None False,
     Str ''\"'', Group ''method'' (alt (Str ''GET'') [Str ''POST'', Str ''PUT'', Str ''DELETE'',
                                                      Str ''HEAD'', Str ''OPTIONS'']), Str '' '',
     Group ''url'' (Chars NonSpace 1 None True), Chars AnyChar 0 None False, Str ''\" '',
     Group ''duration'' (Chars Digit 1 None True), Eol]"

text \<open>
  \<open>int(text)\<close> on a non-empty string of ASCII digits is its decimal value. The model
  raises \<open>ValueError\<close> for every other string: \<open>\d+\<close> captures digits only, so the
  other forms that \<open>int\<close> accepts (a sign, surrounding white space, underscores) do not
  arise. CPython (3.11 and later, and the security releases of the versions before it) also
  raises \<open>ValueError\<close> for a string of more than
  \<open>sys.int_info.default_max_str_digits\<close> digits, 4300 unless the interpreter is
  configured otherwise; the model takes this default.
\<close>

definition digit_value :: "char \<Rightarrow> int" where
  "digit_value c = int (of_char c) - 48"

definition max_str_digits :: nat where
  "max_str_digits = 4300"

definition py_int :: "string \<Rightarrow> py_error + int" where
  "py_int text =
     (if text \<noteq> [] \<and> list_all is_digit text \<and> length text \<le> max_str_digits
      then Inr (foldl (\<lambda>a c. 10 * a + digit_value c) 0 text) else Inl ValueError)"

text \<open>
  \<open>data[name]\<close> on the \<open>groupdict\<close> of a match. Every named group of
  \<open>LOG_PATTERN\<close> lies on every path through the pattern, so a match binds all five.
\<close>

definition group :: "(string \<times> string) list \<Rightarrow> string \<Rightarrow> string" where
  "group data name = (case map_of data name of None \<Rightarrow> [] | Some text \<Rightarrow> text)"

text \<open>\<open>LogParser.parse_line\<close>: \<open>Inr None\<close> is the \<open>None\<close> that it returns for no match.\<close>

definition parse_line :: "string \<Rightarrow> py_error + LogEntry option" where
  "parse_line line =
     (case search LOG_PATTERN line of
        None \<Rightarrow> Inr None
      | Some data \<Rightarrow>
          (case py_int (group data ''duration'') of
             Inl e \<Rightarrow> Inl e
           | Inr d \<Rightarrow> Inr (Some \<lparr>ip = group data ''ip'', method = group data ''method'',
                                 url = group data ''url'', date = group data ''date'',
                                 duration = d\<rparr>)))"

text \<open>
  The loop of \<open>LogParser.analyze_file\<close> over the lines of the file, in file order
  (iterating over a text file yields each line with its newline).
\<close>

fun analyze_lines :: "string list \<Rightarrow> LogParser \<Rightarrow> py_error + LogParser" where
  "analyze_lines [] s = Inr s"
| "analyze_lines (line # rest) s =
     (case parse_line line of
        Inl e \<Rightarrow> Inl e
      | Inr None \<Rightarrow> analyze_lines rest s
      | Inr (Some entry) \<Rightarrow>
          (case process_entry entry s of Inl e \<Rightarrow> Inl e | Inr s' \<Rightarrow> analyze_lines rest s'))"

text \<open>
  What it means for a pattern to match, independently of the order in which a matcher
  tries the alternatives: \<open>accepts r s s'\<close> holds when \<open>r\<close> matches a prefix of
  \<open>s\<close> and leaves \<open>s'\<close>. A line matches the grammar when \<open>LOG_PATTERN\<close> matches at
  some position of the line.
\<close>

fun accepts :: "regex \<Rightarrow> string \<Rightarrow> string \<Rightarrow> bool" where
  "accepts (Chars cs lo hi greedy) s s' =
     (\<exists>w. s = w @ s' \<and> list_all (in_charset cs) w \<and> lo \<le> length w \<and>
          (case hi of None \<Rightarrow> True | Some h \<Rightarrow> length w \<le> h))"
| "accepts (Str w) s s' = (s = w @ s')"
| "accepts (Seq r1 r2) s s' = (\<exists>s1. accepts r1 s s1 \<and> accepts r2 s1 s')"
| "accepts (Alt r1 r2) s s' = (accepts r1 s s' \<or> accepts r2 s s')"
| "accepts (Group name r) s s' = accepts r s s'"
| "accepts Eol s s' = (s' = s \<and> (s = [] \<or> s = [newline]))"

definition grammar_match :: "string \<Rightarrow> bool" where
  "grammar_match line = (\<exists>before s s'. line = before @ s \<and> accepts LOG_PATTERN s s')"

text \<open>
  The pieces of a matching line: an octet is one to three digits, the text between the
  pieces is free of newlines. A \<open>groupdict\<close> has a duration when it binds
  \<open>duration\<close> to a non-empty string of digits.
\<close>

definition octet :: "string \<Rightarrow> bool" where
  "octet w = (list_all is_digit w \<and> 1 \<le> length w \<and> length w \<le> 3)"

definition free_text :: "string \<Rightarrow> bool" where
  "free_text w = list_all (\<lambda>c. c \<noteq> newline) w"

definition has_duration :: "(string \<times> string) list \<Rightarrow> bool" where
  "has_duration data =
     (\<exists>text. map_of data ''duration'' = Some text \<and> text \<noteq> [] \<and> list_all is_digit text)"

section \<open>The driver\<close>

text \<open>
  The part of the file system that \<open>main\<close> reads: a path names a text file (its
  lines, each with its newline), a directory (the names that \<open>os.listdir\<close> returns, in
  its order) or nothing. Opening a path that is not a file raises \<open>OSError\<close>.
\<close>

datatype node = File "string list" | Dir "string list"

type_synonym files = "string \<Rightarrow> node option"

definition isfile :: "files \<Rightarrow> string \<Rightarrow> bool" where
  "isfile files path = (case files path of Some (File _) \<Rightarrow> True | _ \<Rightarrow> False)"

definition isdir :: "files \<Rightarrow> string \<Rightarrow> bool" where
  "isdir files path = (case files path of Some (Dir _) \<Rightarrow> True | _ \<Rightarrow> False)"

definition listdir :: "files \<Rightarrow> string \<Rightarrow> py_error + string list" where
  "listdir files path = (case files path of Some (Dir names) \<Rightarrow> Inr names | _ \<Rightarrow> Inl OSError)"

text \<open>\<open>os.path.join\<close> of two components (POSIX).\<close>

definition path_join :: "string \<Rightarrow> string \<Rightarrow> string" where
  "path_join a b =
     (if prefix ''/'' b then b
      else if a = [] \<or> suffix ''/'' a then a @ b
      else a @ ''/'' @ b)"

text \<open>\<open>LogParser.analyze_file\<close>\<close>

definition analyze_file :: "files \<Rightarrow> string \<Rightarrow> LogParser \<Rightarrow> py_error + LogParser" where
  "analyze_file files file_path s =
     (case files file_path of Some (File lines) \<Rightarrow> analyze_lines lines s | _ \<Rightarrow> Inl OSError)"

text \<open>
  The dictionary that \<open>save_results\<close> builds (total, method counts, top 3 IPs, slow
  requests) and what the program does with it: it prints it and writes it as JSON.
\<close>

datatype result = Result int "(string \<times> int) list" "(string \<times> int) list" "LogEntry list"

datatype event = Print_result result | Write_json string result | Print_invalid_path

text \<open>
  \<open>LogParser.save_results\<close>; \<open>writable\<close> tells the paths that can be opened for
  writing.
\<close>

definition save_results ::
    "(string \<Rightarrow> bool) \<Rightarrow> string \<Rightarrow> LogParser \<Rightarrow> event list \<times> (py_error + unit)" where
  "save_results writable output_path s =
     (let result = Result (total_requests s) (method_counts s) (get_top_ips 3 s) (slow_requests s)
      in if writable output_path
         then ([Print_result result, Write_json output_path result], Inr ())
         else ([Print_result result], Inl OSError))"

text \<open>The loop of \<open>main\<close> over the names of a directory.\<close>

fun analyze_dir :: "files \<Rightarrow> string \<Rightarrow> string list \<Rightarrow> LogParser \<Rightarrow> py_error + LogParser" where
  "analyze_dir files input [] s = Inr s"
| "analyze_dir files input (filename # rest) s =
     (if suffix ''.log'' filename
      then (case analyze_file files (path_join input filename) s of
              Inl e \<Rightarrow> Inl e
            | Inr s' \<Rightarrow> analyze_dir files input rest s')
      else analyze_dir files input rest s)"

text \<open>\<open>args.output or default\<close>: an absent or empty option gives the default.\<close>

definition output_or :: "string option \<Rightarrow> string \<Rightarrow> string" where
  "output_or output dflt = (case output of None \<Rightarrow> dflt | Some p \<Rightarrow> if p = [] then dflt else p)"

text \<open>
  \<open>main\<close>, after the arguments are parsed: the events of the run, and the value that
  \<open>main\<close> returns (\<open>None\<close> where it falls off its end, 1 after the message for an
  invalid path) or the exception that leaves it.
\<close>

definition finish ::
    "(string \<Rightarrow> bool) \<Rightarrow> string \<Rightarrow> py_error + LogParser \<Rightarrow> event list \<times> (py_error + int option)" where
  "finish writable output_path analysed =
     (case analysed of
        Inl e \<Rightarrow> ([], Inl e)
      | Inr s \<Rightarrow>
          (case save_results writable output_path s of
             (events, Inl e) \<Rightarrow> (events, Inl e)
           | (events, Inr _) \<Rightarrow> (events, Inr None)))"

definition main ::
    "files \<Rightarrow> (string \<Rightarrow> bool) \<Rightarrow> string \<Rightarrow> string option \<Rightarrow> event list \<times> (py_error + int option)" where
  "main files writable input output =
     (if isfile files input
      then finish writable (output_or output (input @ ''.json'')) (analyze_file files input init)
      else if isdir files input
      then (case listdir files input of
              Inl e \<Rightarrow> ([], Inl e)
            | Inr names \<Rightarrow>
                finish writable (output_or output ''logs_analysis.json'')
                  (analyze_dir files input names init))
      else ([Print_invalid_path], Inr (Some 1)))"

text \<open>
  The script ends with \<open>if __name__ == '__main__': main()\<close>: the value that \<open>main\<close>
  returns is dropped, so the interpreter exits with status 0 when \<open>main\<close> returns and
  with status 1 when an exception leaves it.
\<close>

definition exit_status :: "files \<Rightarrow> (string \<Rightarrow> bool) \<Rightarrow> string \<Rightarrow> string option \<Rightarrow> int" where
  "exit_status files writable input output =
     (case snd (main files writable input output) of Inl e \<Rightarrow> 1 | Inr returned \<Rightarrow> 0)"

section \<open>Concrete states and records of the examples\<close>

definition full_state :: LogParser where
  "full_state = \<lparr>total_requests = 3, method_counts = [(''GET'', 3)], ip_counts = [(''1.2.3.4'', 3)],
     slow_requests =
       [\<lparr>ip = ''1.2.3.4'', method = ''GET'', url = ''/a'', date = ''d1'', duration = 70\<rparr>,
        \<lparr>ip = ''1.2.3.4'', method = ''GET'', url = ''/b'', date = ''d2'', duration = 60\<rparr>,
        \<lparr>ip = ''1.2.3.4'', method = ''GET'', url = ''/c'', date = ''d3'', duration = 50\<rparr>]\<rparr>"

definition tie_entry :: LogEntry where
  "tie_entry = \<lparr>ip = ''5.6.7.8'', method = ''POST'', url = ''/d'', date = ''d4'', duration = 50\<rparr>"


section \<open>Properties of the building blocks\<close>

lemma slice_to_3 [simp]: "slice_to 3 xs = take 3 xs"
  by (simp add: slice_to_def)

lemma last_item_nonempty: "xs \<noteq> [] \<Longrightarrow> last_item xs = Inr (last xs)"
  by (cases xs) (simp_all add: last_item_def)

lemma process_entry_Inr:
  "process_entry e s =
     Inr (let s3 = s\<lparr>total_requests := total_requests s + 1,
                      method_counts := incr (method e) (method_counts s),
                      ip_counts := incr (ip e) (ip_counts s)\<rparr>
          in if length (slow_requests s) < 3 \<or> duration e > duration (last (slow_requests s))
             then admit e s3 else s3)"
proof (cases "length (slow_requests s) < 3")
  case True
  then show ?thesis by (simp add: process_entry_def Let_def)
next
  case False
  then have "slow_requests s \<noteq> []" by auto
  with False show ?thesis
    by (simp add: process_entry_def Let_def last_item_nonempty)
qed

lemma mset_sort_reverse [simp]: "mset (sort_reverse f xs) = mset xs"
  by (simp add: sort_reverse_def)

lemma set_sort_reverse [simp]: "set (sort_reverse f xs) = set xs"
  by (simp add: sort_reverse_def)

lemma length_sort_reverse [simp]: "length (sort_reverse f xs) = length xs"
  by (simp add: sort_reverse_def)

lemma sorted_sort_reverse: "sorted_wrt (\<lambda>a b. f a \<ge> f b) (sort_reverse f xs)"
proof -
  have "sorted (map f (sort_key f (rev xs)))" by simp
  then have "sorted_wrt (\<lambda>a b. f a \<le> f b) (sort_key f (rev xs))"
    by (simp add: sorted_map)
  then show ?thesis
    unfolding sort_reverse_def by (simp add: sorted_wrt_rev)
qed

lemma filter_sort_reverse:
  "filter (\<lambda>x. f x = k) (sort_reverse f xs) = filter (\<lambda>x. f x = k) xs"
  unfolding sort_reverse_def by (simp add: rev_filter [symmetric] sort_key_stable del: rev_filter)

lemma sum_incr: "sum_list (map snd (incr k d)) = sum_list (map snd d) + 1"
  by (induction d) auto

lemma keys_incr: "map fst (incr k d) = (if k \<in> set (map fst d) then map fst d else map fst d @ [k])"
  by (induction d) force+

section \<open>Properties of the accumulator\<close>

lemma process_entries_append:
  "process_entries (xs @ ys) s =
     (case process_entries xs s of Inl err \<Rightarrow> Inl err | Inr s' \<Rightarrow> process_entries ys s')"
  by (induction xs arbitrary: s) (auto split: sum.splits)

lemma process_entries_snoc:
  "process_entries es s = Inr s1 \<Longrightarrow> process_entries (es @ [e]) s = process_entry e s1"
  by (simp add: process_entries_append split: sum.splits)

lemma process_entries_total: "\<exists>s'. process_entries es s = Inr s'"
  by (induction es arbitrary: s) (auto simp: process_entry_Inr)

text \<open>
  C9: \<open>process_entry\<close> returns a state, without an error, from every accumulator state
  and for every record; the slow list is shorter than 3 or reading its last element
  succeeds, so the guard never reads the last element of an empty list; and processing a
  whole sequence of records returns a state as well.
\<close>

theorem process_entry_never_fails:
  "(\<exists>s'. process_entry entry s = Inr s') \<and>
   (length (slow_requests s) < 3 \<or> (\<exists>l. last_item (slow_requests s) = Inr l)) \<and>
   (\<exists>s'. process_entries es s = Inr s')"
proof -
  have "\<exists>l. last_item (slow_requests s) = Inr l" if "\<not> length (slow_requests s) < 3"
  proof -
    from that have "slow_requests s \<noteq> []" by auto
    then show ?thesis by (simp add: last_item_nonempty)
  qed
  then show ?thesis
    using process_entries_total [of es s] by (auto simp: process_entry_Inr)
qed

lemma process_entries_counts:
  "\<exists>s'. process_entries es s = Inr s' \<and>
        total_requests s' = total_requests s + int (length es) \<and>
        sum_list (map snd (method_counts s')) = sum_list (map snd (method_counts s)) + int (length es) \<and>
        sum_list (map snd (ip_counts s')) = sum_list (map snd (ip_counts s)) + int (length es)"
proof (induction es arbitrary: s)
  case Nil
  show ?case by simp
next
  case (Cons e es)
  obtain s1 where s1: "process_entry e s = Inr s1"
    by (simp add: process_entry_Inr)
  then have *: "total_requests s1 = total_requests s + 1"
    "sum_list (map snd (method_counts s1)) = sum_list (map snd (method_counts s)) + 1"
    "sum_list (map snd (ip_counts s1)) = sum_list (map snd (ip_counts s)) + 1"
    by (auto simp: process_entry_Inr Let_def admit_def sum_incr split: if_splits)
  from Cons.IH [of s1] s1 * show ?case by auto
qed

text \<open>
  C5: after processing any sequence of N records from the empty accumulator state,
  \<open>total_requests\<close> is N, the per-method counts sum to N and the per-IP counts
  sum to N.
\<close>

theorem counts_sum_to_total:
  "\<exists>s. process_entries es init = Inr s \<and>
       total_requests s = int (length es) \<and>
       sum_list (map snd (method_counts s)) = int (length es) \<and>
       sum_list (map snd (ip_counts s)) = int (length es)"
  using process_entries_counts [of es init] by (simp add: init_def)

lemma slow_after_process_entry:
  "process_entry e s = Inr s' \<Longrightarrow>
   slow_requests s' =
     (if length (slow_requests s) < 3 \<or> duration e > duration (last (slow_requests s))
      then take 3 (sort_reverse duration (slow_requests s @ [e])) else slow_requests s)"
  by (auto simp: process_entry_Inr Let_def admit_def)

text \<open>
  C2: from every accumulator state and for every record, \<open>process_entry\<close> appends
  the record to the slow list exactly when the list holds fewer than 3 entries or the
  record's duration is strictly greater than that of the list's last element; the list is
  then the first three elements of the appended list sorted in descending order of duration
  (a permutation of it); otherwise the slow list is unchanged. Records with durations
  10, 20, 30, 25, processed in that order from the empty state, leave the slow list holding
  the records with durations 30, 25, 20.
\<close>

theorem slow_list_admission:
  "(\<exists>s'. process_entry entry s = Inr s' \<and>
      (if length (slow_requests s) < 3 \<or> duration entry > duration (last (slow_requests s))
       then slow_requests s' = take 3 (sort_reverse duration (slow_requests s @ [entry])) \<and>
            mset (sort_reverse duration (slow_requests s @ [entry])) = mset (slow_requests s @ [entry]) \<and>
            sorted_wrt (\<lambda>a b. duration a \<ge> duration b) (sort_reverse duration (slow_requests s @ [entry]))
       else slow_requests s' = slow_requests s)) \<and>
   (\<exists>s'. process_entries
            [e1\<lparr>duration := 10\<rparr>, e2\<lparr>duration := 20\<rparr>, e3\<lparr>duration := 30\<rparr>, e4\<lparr>duration := 25\<rparr>] init
          = Inr s' \<and>
        slow_requests s' = [e3\<lparr>duration := 30\<rparr>, e4\<lparr>duration := 25\<rparr>, e2\<lparr>duration := 20\<rparr>])"
proof -
  obtain s' where s': "process_entry entry s = Inr s'"
    by (simp add: process_entry_Inr)
  have general: "if length (slow_requests s) < 3 \<or> duration entry > duration (last (slow_requests s))
       then slow_requests s' = take 3 (sort_reverse duration (slow_requests s @ [entry])) \<and>
            mset (sort_reverse duration (slow_requests s @ [entry])) = mset (slow_requests s @ [entry]) \<and>
            sorted_wrt (\<lambda>a b. duration a \<ge> duration b) (sort_reverse duration (slow_requests s @ [entry]))
       else slow_requests s' = slow_requests s"
    using slow_after_process_entry [OF s'] sorted_sort_reverse [of duration "slow_requests s @ [entry]"]
    by (simp del: mset_append)
  have example: "process_entries
            [e1\<lparr>duration := 10\<rparr>, e2\<lparr>duration := 20\<rparr>, e3\<lparr>duration := 30\<rparr>, e4\<lparr>duration := 25\<rparr>] init
          = Inr (\<lparr>total_requests = 4,
                 method_counts = incr (method e4) (incr (method e3) (incr (method e2) (incr (method e1) []))),
                 ip_counts = incr (ip e4) (incr (ip e3) (incr (ip e2) (incr (ip e1) []))),
                 slow_requests = [e3\<lparr>duration := 30\<rparr>, e4\<lparr>duration := 25\<rparr>, e2\<lparr>duration := 20\<rparr>]\<rparr>)"
    by (simp add: process_entry_Inr init_def admit_def sort_reverse_def Let_def)
  from s' general example show ?thesis by auto
qed

text \<open>
  C3: when the slow list holds 3 entries, a record whose duration equals the minimum
  duration of the list is rejected and the slow list is unchanged; four records of
  duration 50 processed from the empty state leave the slow list holding the first three.
\<close>

theorem tie_with_minimum_rejected:
  "(length (slow_requests s) = 3 \<and> duration entry = Min (duration ` set (slow_requests s))
      \<longrightarrow> (\<exists>s'. process_entry entry s = Inr s' \<and> slow_requests s' = slow_requests s)) \<and>
   (\<exists>s'. process_entries
            [e1\<lparr>duration := 50\<rparr>, e2\<lparr>duration := 50\<rparr>, e3\<lparr>duration := 50\<rparr>, e4\<lparr>duration := 50\<rparr>] init
          = Inr s' \<and>
        slow_requests s' = [e1\<lparr>duration := 50\<rparr>, e2\<lparr>duration := 50\<rparr>, e3\<lparr>duration := 50\<rparr>])"
proof -
  have general: "\<exists>s'. process_entry entry s = Inr s' \<and> slow_requests s' = slow_requests s"
    if len: "length (slow_requests s) = 3"
      and tie: "duration entry = Min (duration ` set (slow_requests s))"
  proof -
    from len have ne: "slow_requests s \<noteq> []" by auto
    then have "last (slow_requests s) \<in> set (slow_requests s)" by simp
    then have "Min (duration ` set (slow_requests s)) \<le> duration (last (slow_requests s))"
      by simp
    with tie have "\<not> duration entry > duration (last (slow_requests s))" by simp
    moreover obtain s' where s': "process_entry entry s = Inr s'"
      by (simp add: process_entry_Inr)
    ultimately show ?thesis
      using len slow_after_process_entry [OF s'] by simp
  qed
  have example: "process_entries
            [e1\<lparr>duration := 50\<rparr>, e2\<lparr>duration := 50\<rparr>, e3\<lparr>duration := 50\<rparr>, e4\<lparr>duration := 50\<rparr>] init
          = Inr (\<lparr>total_requests = 4,
                 method_counts = incr (method e4) (incr (method e3) (incr (method e2) (incr (method e1) []))),
                 ip_counts = incr (ip e4) (incr (ip e3) (incr (ip e2) (incr (ip e1) []))),
                 slow_requests = [e1\<lparr>duration := 50\<rparr>, e2\<lparr>duration := 50\<rparr>, e3\<lparr>duration := 50\<rparr>]\<rparr>)"
    by (simp add: process_entry_Inr init_def admit_def sort_reverse_def Let_def)
  from general example show ?thesis by auto
qed

theorem tie_with_minimum_rejected_witness:
  "length (slow_requests full_state) = 3 \<and>
   duration tie_entry = Min (duration ` set (slow_requests full_state)) \<and>
   (\<exists>s'. process_entry tie_entry full_state = Inr s' \<and>
         slow_requests s' = slow_requests full_state)"
proof -
  have h: "length (slow_requests full_state) = 3 \<and>
           duration tie_entry = Min (duration ` set (slow_requests full_state))"
    by (simp add: full_state_def tie_entry_def)
  with tie_with_minimum_rejected [of full_state tie_entry] show ?thesis by blast
qed

text \<open>
  C4: after processing any sequence of N records from the empty accumulator state the slow
  list has length min(3, N), is sorted in descending order of duration, and for every
  duration the entries of the slow list with that duration appear in the order in which
  they were processed.
\<close>

theorem slow_list_invariant:
  "\<exists>s. process_entries es init = Inr s \<and>
       length (slow_requests s) = min 3 (length es) \<and>
       sorted_wrt (\<lambda>a b. duration a \<ge> duration b) (slow_requests s) \<and>
       (\<forall>k. subseq (filter (\<lambda>x. duration x = k) (slow_requests s))
                   (filter (\<lambda>x. duration x = k) es))"
proof (induction es rule: rev_induct)
  case Nil
  show ?case by (simp add: init_def)
next
  case (snoc e es)
  then obtain s where s: "process_entries es init = Inr s"
    and len: "length (slow_requests s) = min 3 (length es)"
    and srt: "sorted_wrt (\<lambda>a b. duration a \<ge> duration b) (slow_requests s)"
    and ord: "\<And>k. subseq (filter (\<lambda>x. duration x = k) (slow_requests s))
                   (filter (\<lambda>x. duration x = k) es)"
    by blast
  obtain s' where s': "process_entry e s = Inr s'"
    by (simp add: process_entry_Inr)
  have all: "process_entries (es @ [e]) init = Inr s'"
    using process_entries_snoc [OF s] s' by simp
  let ?adm = "length (slow_requests s) < 3 \<or> duration e > duration (last (slow_requests s))"
  let ?new = "take 3 (sort_reverse duration (slow_requests s @ [e]))"
  show ?case
  proof (cases ?adm)
    case True
    then have slow: "slow_requests s' = ?new"
      using slow_after_process_entry [OF s'] by simp
    have "length ?new = min 3 (length (es @ [e]))"
      using len by auto
    moreover have "sorted_wrt (\<lambda>a b. duration a \<ge> duration b) ?new"
      using sorted_sort_reverse [of duration "slow_requests s @ [e]"]
      by (rule sorted_wrt_take)
    moreover have "subseq (filter (\<lambda>x. duration x = k) ?new)
                          (filter (\<lambda>x. duration x = k) (es @ [e]))" for k
    proof -
      have "subseq ?new (sort_reverse duration (slow_requests s @ [e]))"
        using take_is_prefix by (rule prefix_imp_subseq)
      then have "subseq (filter (\<lambda>x. duration x = k) ?new)
                   (filter (\<lambda>x. duration x = k) (sort_reverse duration (slow_requests s @ [e])))"
        by (rule subseq_filter)
      then have "subseq (filter (\<lambda>x. duration x = k) ?new)
                   (filter (\<lambda>x. duration x = k) (slow_requests s) @ filter (\<lambda>x. duration x = k) [e])"
        by (simp only: filter_sort_reverse filter_append)
      moreover have "subseq (filter (\<lambda>x. duration x = k) (slow_requests s) @ filter (\<lambda>x. duration x = k) [e])
                            (filter (\<lambda>x. duration x = k) es @ filter (\<lambda>x. duration x = k) [e])"
        using ord [of k] by (simp only: subseq_append)
      ultimately show ?thesis
        unfolding filter_append by (rule subseq_order.order_trans)
    qed
    ultimately have "process_entries (es @ [e]) init = Inr s' \<and>
       length (slow_requests s') = min 3 (length (es @ [e])) \<and>
       sorted_wrt (\<lambda>a b. duration a \<ge> duration b) (slow_requests s') \<and>
       (\<forall>k. subseq (filter (\<lambda>x. duration x = k) (slow_requests s'))
                   (filter (\<lambda>x. duration x = k) (es @ [e])))"
      using all unfolding slow by blast
    then show ?thesis by (rule exI)
  next
    case False
    then have slow: "slow_requests s' = slow_requests s"
      using slow_after_process_entry [OF s'] by simp
    from False len have "length (slow_requests s) = min 3 (length (es @ [e]))"
      by auto
    moreover have "subseq (filter (\<lambda>x. duration x = k) (slow_requests s))
                          (filter (\<lambda>x. duration x = k) (es @ [e]))" for k
      unfolding filter_append using ord [of k] by (rule list_emb_prefix)
    ultimately have "process_entries (es @ [e]) init = Inr s' \<and>
       length (slow_requests s') = min 3 (length (es @ [e])) \<and>
       sorted_wrt (\<lambda>a b. duration a \<ge> duration b) (slow_requests s') \<and>
       (\<forall>k. subseq (filter (\<lambda>x. duration x = k) (slow_requests s'))
                   (filter (\<lambda>x. duration x = k) (es @ [e])))"
      using all srt unfolding slow by blast
    then show ?thesis by (rule exI)
  qed
qed

section \<open>Properties of the top-IP query\<close>

lemma length_4_conv: "length d = 4 \<Longrightarrow> \<exists>w x y z. d = [w, x, y, z]"
  by (auto simp: numeral_eq_Suc length_Suc_conv)


lemma slice_to_take: "\<exists>m. slice_to n xs = take m xs"
  by (auto simp: slice_to_def)





lemma set_first_seen [simp]: "set (first_seen xs) = set xs"
  by (induction xs) auto

lemma distinct_first_seen [simp]: "distinct (first_seen xs)"
  by (induction xs) (auto simp: distinct_removeAll)

lemma first_seen_snoc:
  "first_seen (xs @ [x]) = (if x \<in> set xs then first_seen xs else first_seen xs @ [x])"
  by (induction xs) auto

lemma incr_counted:
  "distinct xs \<Longrightarrow>
   incr k (map (\<lambda>a. (a, f a)) xs) =
     (if k \<in> set xs then map (\<lambda>a. (a, if a = k then f a + 1 else f a)) xs
      else map (\<lambda>a. (a, f a)) xs @ [(k, 1)])"
  by (induction xs) auto

lemma ip_counts_after_process_entry:
  "process_entry e s = Inr s' \<Longrightarrow> ip_counts s' = incr (ip e) (ip_counts s)"
  by (auto simp: process_entry_Inr Let_def admit_def)

lemma ip_counts_counted:
  "\<exists>s. process_entries es init = Inr s \<and>
       ip_counts s = map (\<lambda>a. (a, int (count_list (map ip es) a))) (first_seen (map ip es))"
proof (induction es rule: rev_induct)
  case Nil
  show ?case by (simp add: init_def)
next
  case (snoc e es)
  then obtain s where s: "process_entries es init = Inr s"
    and cnt: "ip_counts s = map (\<lambda>a. (a, int (count_list (map ip es) a))) (first_seen (map ip es))"
    by blast
  obtain s' where s': "process_entry e s = Inr s'"
    by (simp add: process_entry_Inr)
  have "ip_counts s' = map (\<lambda>a. (a, int (count_list (map ip (es @ [e])) a)))
                           (first_seen (map ip (es @ [e])))"
  proof (cases "ip e \<in> set (map ip es)")
    case True
    then show ?thesis
      unfolding ip_counts_after_process_entry [OF s'] cnt
      by (simp add: incr_counted first_seen_snoc)
  next
    case False
    then have "count_list (map ip es) (ip e) = 0"
      by (simp add: count_list_0_iff)
    moreover have "map (\<lambda>a. (a, int (count_list (map ip es) a) + (if ip e = a then 1 else 0)))
                     (first_seen (map ip es)) =
                   map (\<lambda>a. (a, int (count_list (map ip es) a))) (first_seen (map ip es))"
      using False by (intro map_cong) auto
    ultimately show ?thesis
      using False unfolding ip_counts_after_process_entry [OF s'] cnt
      by (auto simp: incr_counted first_seen_snoc)
  qed
  moreover have "process_entries (es @ [e]) init = Inr s'"
    using process_entries_snoc [OF s] s' by simp
  ultimately show ?case by blast
qed

lemma prefix_filter_take: "prefix (filter P (take m ys)) (filter P ys)"
proof -
  have "filter P ys = filter P (take m ys) @ filter P (drop m ys)"
    by (simp flip: filter_append)
  then show ?thesis by (rule prefixI)
qed

lemma slice_to_nat [simp]: "slice_to (int k) xs = take k xs"
  by (simp add: slice_to_def)

text \<open>
  C10: after processing any sequence of records from the empty state, the per-IP counts
  hold the IP addresses in the order of their first occurrence, each with the number of its
  occurrences. \<open>get_top_ips k\<close> is the first \<open>k\<close> pairs of the ranking of these
  pairs that is in descending order of count and keeps pairs of equal count in first-seen
  order, and there is one such ranking only. So for every \<open>n\<close> and every count the
  returned pairs with that count are the first ones, in first-seen order, of the IPs with
  that count: ties are broken by first-seen order, also where the list is cut.
\<close>

theorem top_ips_ties_first_seen:
  "distinct (first_seen (map ip es)) \<and>
   (\<exists>s ranked. process_entries es init = Inr s \<and>
      ip_counts s = map (\<lambda>a. (a, int (count_list (map ip es) a))) (first_seen (map ip es)) \<and>
      mset ranked = mset (ip_counts s) \<and>
      sorted_wrt (\<lambda>p q. snd p \<ge> snd q) ranked \<and>
      (\<forall>c. filter (\<lambda>p. snd p = c) ranked = filter (\<lambda>p. snd p = c) (ip_counts s)) \<and>
      (\<forall>k. get_top_ips (int k) s = take k ranked) \<and>
      (\<forall>n c. prefix (filter (\<lambda>p. snd p = c) (get_top_ips n s))
                     (filter (\<lambda>p. snd p = c) (ip_counts s))))"
proof -
  obtain s where s: "process_entries es init = Inr s"
    and cnt: "ip_counts s = map (\<lambda>a. (a, int (count_list (map ip es) a))) (first_seen (map ip es))"
    using ip_counts_counted by blast
  let ?ranked = "sort_reverse snd (ip_counts s)"
  have perm: "mset ?ranked = mset (ip_counts s)" by simp
  have srt: "sorted_wrt (\<lambda>p q. snd p \<ge> snd q) ?ranked"
    by (rule sorted_sort_reverse)
  have stable: "\<forall>c. filter (\<lambda>p. snd p = c) ?ranked = filter (\<lambda>p. snd p = c) (ip_counts s)"
    by (simp only: filter_sort_reverse) simp
  have top: "\<forall>k. get_top_ips (int k) s = take k ?ranked"
    by (simp add: get_top_ips_def)
  have ties: "prefix (filter (\<lambda>p. snd p = c) (get_top_ips n s))
                     (filter (\<lambda>p. snd p = c) (ip_counts s))" for n c
  proof -
    obtain m where m: "get_top_ips n s = take m ?ranked"
      unfolding get_top_ips_def using slice_to_take by blast
    have "prefix (filter (\<lambda>p. snd p = c) (take m ?ranked)) (filter (\<lambda>p. snd p = c) ?ranked)"
      by (rule prefix_filter_take)
    then show ?thesis
      unfolding m by (simp only: filter_sort_reverse)
  qed
  have "process_entries es init = Inr s \<and>
      ip_counts s = map (\<lambda>a. (a, int (count_list (map ip es) a))) (first_seen (map ip es)) \<and>
      mset ?ranked = mset (ip_counts s) \<and>
      sorted_wrt (\<lambda>p q. snd p \<ge> snd q) ?ranked \<and>
      (\<forall>c. filter (\<lambda>p. snd p = c) ?ranked = filter (\<lambda>p. snd p = c) (ip_counts s)) \<and>
      (\<forall>k. get_top_ips (int k) s = take k ?ranked) \<and>
      (\<forall>n c. prefix (filter (\<lambda>p. snd p = c) (get_top_ips n s))
                     (filter (\<lambda>p. snd p = c) (ip_counts s)))"
    using s cnt perm srt stable top ties by blast
  then show ?thesis
    by (simp only: distinct_first_seen) blast
qed

text \<open>
  Three IP addresses seen once each: the top 2 are the two that were seen first.
\<close>

lemma top_ips_ties_example:
  "\<exists>s. process_entries [e1\<lparr>ip := ''9.9.9.9''\<rparr>, e2\<lparr>ip := ''1.1.1.1''\<rparr>, e3\<lparr>ip := ''5.5.5.5''\<rparr>] init
          = Inr s \<and>
       get_top_ips 2 s = [(''9.9.9.9'', 1), (''1.1.1.1'', 1)]"
  by (simp add: process_entry_Inr init_def admit_def sort_reverse_def get_top_ips_def
      slice_to_def Let_def)

section \<open>Properties of the line grammar\<close>

text \<open>The backtracking matcher finds a match exactly when the pattern has one.\<close>

lemma rep_sound:
  "s' \<in> set (rep cs lo hi greedy s) \<Longrightarrow>
   \<exists>w. s = w @ s' \<and> list_all (in_charset cs) w \<and> lo \<le> length w \<and>
       (case hi of None \<Rightarrow> True | Some h \<Rightarrow> length w \<le> h)"
proof (induction s arbitrary: lo hi)
  case Nil
  then show ?case by (auto split: if_splits option.splits)
next
  case (Cons c s)
  from Cons.prems consider
      (stop) "lo = 0" "s' = c # s"
    | (more) "hi \<noteq> Some 0" "in_charset cs c"
             "s' \<in> set (rep cs (lo - 1) (map_option (\<lambda>h. h - 1) hi) greedy s)"
    by (auto simp: Let_def split: if_splits)
  then show ?case
  proof cases
    case stop
    then have "c # s = [] @ s' \<and> list_all (in_charset cs) [] \<and> lo \<le> length ([] :: string) \<and>
       (case hi of None \<Rightarrow> True | Some h \<Rightarrow> length ([] :: string) \<le> h)"
      by (simp split: option.splits)
    then show ?thesis by blast
  next
    case more
    from Cons.IH [OF more(3)] obtain w where w: "s = w @ s'" "list_all (in_charset cs) w"
      "lo - 1 \<le> length w" "case map_option (\<lambda>h. h - 1) hi of None \<Rightarrow> True | Some h \<Rightarrow> length w \<le> h"
      by blast
    with more(1,2) have "c # s = (c # w) @ s' \<and> list_all (in_charset cs) (c # w) \<and>
       lo \<le> length (c # w) \<and> (case hi of None \<Rightarrow> True | Some h \<Rightarrow> length (c # w) \<le> h)"
      by (auto split: option.splits)
    then show ?thesis by blast
  qed
qed

lemma rep_complete:
  "list_all (in_charset cs) w \<Longrightarrow> lo \<le> length w \<Longrightarrow>
   (case hi of None \<Rightarrow> True | Some h \<Rightarrow> length w \<le> h) \<Longrightarrow>
   s' \<in> set (rep cs lo hi greedy (w @ s'))"
proof (induction w arbitrary: lo hi)
  case Nil
  then show ?case by (cases s') (auto simp: Let_def)
next
  case (Cons c w)
  have "s' \<in> set (rep cs (lo - 1) (map_option (\<lambda>h. h - 1) hi) greedy (w @ s'))"
    using Cons.prems by (intro Cons.IH) (auto split: option.splits)
  moreover have "hi \<noteq> Some 0" "in_charset cs c"
    using Cons.prems by auto
  ultimately show ?case by (auto simp: Let_def)
qed

lemma rep_accepts:
  "s' \<in> set (rep cs lo hi greedy s) \<longleftrightarrow> accepts (Chars cs lo hi greedy) s s'"
  using rep_sound rep_complete by fastforce

lemma matches_accepts:
  "s' \<in> fst ` set (matches r s groups) \<longleftrightarrow> accepts r s s'"
proof (induction r arbitrary: s s' groups)
  case (Chars cs lo hi greedy)
  have "fst ` set (matches (Chars cs lo hi greedy) s groups) = set (rep cs lo hi greedy s)"
    by (simp add: image_image)
  then show ?case by (simp only: rep_accepts)
next
  case (Str w)
  show ?case by (auto simp: prefix_def)
next
  case (Seq r1 r2)
  have "s' \<in> fst ` set (matches (Seq r1 r2) s groups) \<longleftrightarrow>
        (\<exists>m \<in> set (matches r1 s groups). s' \<in> fst ` set (matches r2 (fst m) (snd m)))"
    by auto
  also have "\<dots> \<longleftrightarrow> (\<exists>m \<in> set (matches r1 s groups). accepts r2 (fst m) s')"
    by (simp only: Seq.IH(2))
  also have "\<dots> \<longleftrightarrow> (\<exists>s1 \<in> fst ` set (matches r1 s groups). accepts r2 s1 s')"
    by auto
  also have "\<dots> \<longleftrightarrow> (\<exists>s1. accepts r1 s s1 \<and> accepts r2 s1 s')"
    using Seq.IH(1) [of _ s groups] by blast
  finally show ?case by simp
next
  case (Alt r1 r2)
  then show ?case by (auto simp: image_Un)
next
  case (Group name r)
  have "fst ` set (matches (Group name r) s groups) = fst ` set (matches r s groups)"
    by (simp add: image_image)
  then show ?case by (simp only: Group.IH accepts.simps)
next
  case Eol
  show ?case by auto
qed

lemma matches_empty_iff: "matches r s groups = [] \<longleftrightarrow> (\<forall>s'. \<not> accepts r s s')"
proof -
  have "matches r s groups = [] \<longleftrightarrow> fst ` set (matches r s groups) = {}"
    by simp
  also have "\<dots> \<longleftrightarrow> (\<forall>s'. s' \<notin> fst ` set (matches r s groups))"
    by auto
  finally show ?thesis by (simp only: matches_accepts)
qed

lemma search_None_iff:
  "search r line = None \<longleftrightarrow> (\<forall>before s s'. line = before @ s \<longrightarrow> \<not> accepts r s s')"
proof (induction line)
  case Nil
  have "search r [] = None \<longleftrightarrow> matches r [] [] = []"
    by (simp split: list.splits)
  then show ?case by (simp add: matches_empty_iff)
next
  case (Cons c line)
  have "search r (c # line) = None \<longleftrightarrow> matches r (c # line) [] = [] \<and> search r line = None"
    by (simp split: list.splits)
  also have "\<dots> \<longleftrightarrow> (\<forall>s'. \<not> accepts r (c # line) s') \<and>
                       (\<forall>before s s'. line = before @ s \<longrightarrow> \<not> accepts r s s')"
    by (simp only: matches_empty_iff Cons.IH)
  also have "\<dots> \<longleftrightarrow> (\<forall>before s s'. c # line = before @ s \<longrightarrow> \<not> accepts r s s')"
    by (auto simp: Cons_eq_append_conv)
  finally show ?case .
qed

lemma grammar_match_search: "grammar_match line \<longleftrightarrow> search LOG_PATTERN line \<noteq> None"
  by (simp only: grammar_match_def search_None_iff not_all not_imp not_not)

lemma parse_line_mismatch: "\<not> grammar_match line \<Longrightarrow> parse_line line = Inr None"
  by (simp add: grammar_match_search parse_line_def)

lemma accepts_octet [simp]: "accepts (Chars Digit 1 (Some 3) True) s s' \<longleftrightarrow> (\<exists>w. s = w @ s' \<and> octet w)"
  by (auto simp: octet_def list_all_iff)

lemma accepts_free [simp]: "accepts (Chars AnyChar 0 None False) s s' \<longleftrightarrow> (\<exists>w. s = w @ s' \<and> free_text w)"
  by (auto simp: free_text_def list_all_iff)

lemma accepts_url [simp]:
  "accepts (Chars NonSpace 1 None True) s s' \<longleftrightarrow>
     (\<exists>w. s = w @ s' \<and> w \<noteq> [] \<and> list_all (\<lambda>c. \<not> is_space c) w)"
  by (auto simp: list_all_iff Suc_le_eq)

lemma accepts_digits [simp]:
  "accepts (Chars Digit 1 None True) s s' \<longleftrightarrow> (\<exists>w. s = w @ s' \<and> w \<noteq> [] \<and> list_all is_digit w)"
  by (auto simp: list_all_iff Suc_le_eq)

lemma accepts_method [simp]:
  "accepts (alt (Str ''GET'') [Str ''POST'', Str ''PUT'', Str ''DELETE'', Str ''HEAD'', Str ''OPTIONS'']) s s' \<longleftrightarrow>
     (\<exists>w. s = w @ s' \<and> w \<in> set [''GET'', ''POST'', ''PUT'', ''DELETE'', ''HEAD'', ''OPTIONS''])"
  by auto

text \<open>
  The lines that match the grammar, spelled out: some text, four octets separated by dots,
  free text, a date in brackets, free text, a quoted request that starts with one of the six
  methods, a space and a URL free of white space, then a space, digits, and the end of the
  line (or the newline that ends it).
\<close>

lemma grammar_match_shape:
  "grammar_match line \<longleftrightarrow>
     (\<exists>before o1 o2 o3 o4 gap1 date_text gap2 method_text url_text trail digits end.
        line = before @ o1 @ ''.'' @ o2 @ ''.'' @ o3 @ ''.'' @ o4 @ gap1 @
               ''['' @ date_text @ '']'' @ gap2 @
               ''\"'' @ method_text @ '' '' @ url_text @ trail @ ''\" '' @ digits @ end \<and>
        octet o1 \<and> octet o2 \<and> octet o3 \<and> octet o4 \<and>
        free_text gap1 \<and> free_text date_text \<and> free_text gap2 \<and>
        method_text \<in> set [''GET'', ''POST'', ''PUT'', ''DELETE'', ''HEAD'', ''OPTIONS''] \<and>
        url_text \<noteq> [] \<and> list_all (\<lambda>c. \<not> is_space c) url_text \<and> free_text trail \<and>
        digits \<noteq> [] \<and> list_all is_digit digits \<and> (end = [] \<or> end = [newline]))"
  (is "_ \<longleftrightarrow> ?shape")
proof
  assume "grammar_match line"
  then show ?shape
    unfolding grammar_match_def LOG_PATTERN_def
    apply (simp only: seq.simps accepts.simps(2,3,5,6) accepts_octet accepts_free accepts_url
        accepts_digits accepts_method)
    apply (elim exE conjE)
    apply (simp only: append_assoc)
    apply (intro exI conjI)
    apply (rule refl | assumption)+
    done
next
  assume ?shape
  then show "grammar_match line"
    unfolding grammar_match_def LOG_PATTERN_def
    apply (simp only: seq.simps accepts.simps(2,3,5,6) accepts_octet accepts_free accepts_url
        accepts_digits accepts_method)
    apply (elim exE conjE)
    apply (intro exI conjI)
    apply (assumption | rule refl)+
    done
qed

lemma search_Some_matches:
  "search r line = Some data \<Longrightarrow> \<exists>s m. m \<in> set (matches r s []) \<and> data = snd m"
proof (induction line)
  case Nil
  then show ?case by (auto split: list.splits) (metis list.set_intros(1) snd_conv)
next
  case (Cons c line)
  show ?case
  proof (cases "matches r (c # line) []")
    case Nil
    with Cons show ?thesis by simp
  next
    case (Cons m ms)
    with Cons.prems have "data = snd m" by simp
    moreover from Cons have "m \<in> set (matches r (c # line) [])" by simp
    ultimately show ?thesis by blast
  qed
qed

lemma has_duration_Seq:
  assumes "\<And>s groups m. m \<in> set (matches r2 s groups) \<Longrightarrow> has_duration (snd m)"
    and "m \<in> set (matches (Seq r1 r2) s groups)"
  shows "has_duration (snd m)"
proof -
  from assms(2) obtain m1 where "m \<in> set (matches r2 (fst m1) (snd m1))"
    by auto
  then show ?thesis by (rule assms(1))
qed

lemma has_duration_tail:
  assumes "m \<in> set (matches (Seq (Group ''duration'' (Chars Digit 1 None True)) Eol) s groups)"
  shows "has_duration (snd m)"
proof -
  from assms obtain s1 where s1: "s1 \<in> set (rep Digit 1 None True s)"
    and m: "snd m = (''duration'', take (length s - length s1) s) # groups"
    by (auto split: if_splits)
  from rep_sound [OF s1] obtain w where "s = w @ s1" "list_all (in_charset Digit) w" "1 \<le> length w"
    by blast
  then have "take (length s - length s1) s = w" "w \<noteq> []" "list_all is_digit w"
    by (auto simp: list_all_iff)
  with m show ?thesis by (simp add: has_duration_def)
qed

lemma has_duration_LOG_PATTERN:
  "m \<in> set (matches LOG_PATTERN s groups) \<Longrightarrow> has_duration (snd m)"
  unfolding LOG_PATTERN_def seq.simps
  by ((rule has_duration_tail, assumption) | erule has_duration_Seq [rotated])+

text \<open>
  The group \<open>duration\<close> of a match holds digits only, so the conversion of the
  duration fails for one reason only: more digits than the interpreter converts.
\<close>

lemma parse_line_raises_only_long_duration:
  "(\<exists>r. parse_line line = Inr r) \<or>
   (parse_line line = Inl ValueError \<and>
    (\<exists>data. search LOG_PATTERN line = Some data \<and>
       max_str_digits < length (group data ''duration'')))"
proof (cases "search LOG_PATTERN line")
  case None
  then show ?thesis by (simp add: parse_line_def)
next
  case (Some data)
  from search_Some_matches [OF this] have "has_duration data"
    using has_duration_LOG_PATTERN by blast
  then have digits: "group data ''duration'' \<noteq> []" "list_all is_digit (group data ''duration'')"
    by (auto simp: has_duration_def group_def)
  show ?thesis
  proof (cases "length (group data ''duration'') \<le> max_str_digits")
    case True
    with digits Some show ?thesis by (simp add: parse_line_def py_int_def)
  next
    case False
    with digits Some show ?thesis by (simp add: parse_line_def py_int_def)
  qed
qed

lemma analyze_lines_skip:
  "parse_line line = Inr None \<Longrightarrow>
   analyze_lines (before @ line # after) s = analyze_lines (before @ after) s"
  by (induction before arbitrary: s) (auto split: sum.splits option.splits)

lemma analyze_lines_filter:
  "analyze_lines lines s = analyze_lines (filter grammar_match lines) s"
proof (induction lines arbitrary: s)
  case Nil
  show ?case by simp
next
  case (Cons line lines)
  show ?case
  proof (cases "grammar_match line")
    case True
    with Cons.IH show ?thesis by (simp split: sum.splits option.splits)
  next
    case False
    then have "parse_line line = Inr None" by (rule parse_line_mismatch)
    with False Cons.IH show ?thesis by simp
  qed
qed

text \<open>
  C7: for every line that does not match the grammar, \<open>parse_line\<close> returns
  \<open>None\<close> and raises no error, and the loop of \<open>analyze_file\<close> skips the line:
  the accumulator state (the total and every count) is what it is without the line.
\<close>

theorem mismatch_is_skipped:
  assumes "\<not> grammar_match line"
  shows "parse_line line = Inr None \<and>
         analyze_lines [line] s = Inr s \<and>
         analyze_lines (before @ line # after) s = analyze_lines (before @ after) s"
proof -
  from assms have none: "parse_line line = Inr None"
    by (rule parse_line_mismatch)
  then have "analyze_lines [line] s = Inr s" by simp
  with none analyze_lines_skip [OF none] show ?thesis by simp
qed

lemma no_match_by_search: "search LOG_PATTERN line = None \<Longrightarrow> \<not> grammar_match line"
  by (simp add: grammar_match_search)

text \<open>
  Lines that do not match: a method outside the six, three octets only, no brackets, a
  duration that is not a number, and no duration.
\<close>

theorem mismatch_is_skipped_witness:
  "\<not> grammar_match ''1.2.3.4 - - [10/Oct/2020:13:55:36] \"PATCH /index.html HTTP/1.1\" 150'' \<and>
   parse_line ''1.2.3.4 - - [10/Oct/2020:13:55:36] \"PATCH /index.html HTTP/1.1\" 150'' = Inr None \<and>
   analyze_lines [''1.2.3.4 - - [10/Oct/2020:13:55:36] \"PATCH /index.html HTTP/1.1\" 150''] init = Inr init \<and>
   \<not> grammar_match ''1.2.3 - - [10/Oct/2020:13:55:36] \"GET /index.html HTTP/1.1\" 150'' \<and>
   parse_line ''1.2.3 - - [10/Oct/2020:13:55:36] \"GET /index.html HTTP/1.1\" 150'' = Inr None \<and>
   \<not> grammar_match ''1.2.3.4 - - 10/Oct/2020:13:55:36 \"GET /index.html HTTP/1.1\" 150'' \<and>
   parse_line ''1.2.3.4 - - 10/Oct/2020:13:55:36 \"GET /index.html HTTP/1.1\" 150'' = Inr None \<and>
   \<not> grammar_match ''1.2.3.4 - - [10/Oct/2020:13:55:36] \"GET /index.html HTTP/1.1\" 15x'' \<and>
   parse_line ''1.2.3.4 - - [10/Oct/2020:13:55:36] \"GET /index.html HTTP/1.1\" 15x'' = Inr None \<and>
   \<not> grammar_match ''1.2.3.4 - - [10/Oct/2020:13:55:36] \"GET /index.html HTTP/1.1\"'' \<and>
   parse_line ''1.2.3.4 - - [10/Oct/2020:13:55:36] \"GET /index.html HTTP/1.1\"'' = Inr None"
proof -
  have m: "\<not> grammar_match ''1.2.3.4 - - [10/Oct/2020:13:55:36] \"PATCH /index.html HTTP/1.1\" 150''"
    by (rule no_match_by_search) code_simp
  have i: "\<not> grammar_match ''1.2.3 - - [10/Oct/2020:13:55:36] \"GET /index.html HTTP/1.1\" 150''"
    by (rule no_match_by_search) code_simp
  have b: "\<not> grammar_match ''1.2.3.4 - - 10/Oct/2020:13:55:36 \"GET /index.html HTTP/1.1\" 150''"
    by (rule no_match_by_search) code_simp
  have n: "\<not> grammar_match ''1.2.3.4 - - [10/Oct/2020:13:55:36] \"GET /index.html HTTP/1.1\" 15x''"
    by (rule no_match_by_search) code_simp
  have d: "\<not> grammar_match ''1.2.3.4 - - [10/Oct/2020:13:55:36] \"GET /index.html HTTP/1.1\"''"
    by (rule no_match_by_search) code_simp
  from m i b n d
    mismatch_is_skipped [OF m, of init "[]" "[]"] mismatch_is_skipped [OF i, of init "[]" "[]"]
    mismatch_is_skipped [OF b, of init "[]" "[]"] mismatch_is_skipped [OF n, of init "[]" "[]"]
    mismatch_is_skipped [OF d, of init "[]" "[]"]
  show ?thesis by blast
qed

text \<open>
  C1 as stated fails: in the line of the claim the status \<open>200\<close> stands between the
  quoted request and the duration, and the pattern wants the digits that end the line right
  after the closing quote and one space, so \<open>parse_line\<close> returns \<open>None\<close>.
\<close>

theorem spec_line_has_no_match:
  "parse_line ''1.2.3.4 - - [10/Oct/2020:13:55:36] \"GET /index.html HTTP/1.1\" 200 150'' = Inr None"
  by code_simp

text \<open>
  C1 (amended): the line with the duration right after the quoted request parses to the
  record with ip \<open>1.2.3.4\<close>, method \<open>GET\<close>, url \<open>/index.html\<close>, date
  \<open>10/Oct/2020:13:55:36\<close> and duration 150.
\<close>

theorem parse_line_example:
  "parse_line ''1.2.3.4 - - [10/Oct/2020:13:55:36] \"GET /index.html HTTP/1.1\" 150'' =
     Inr (Some \<lparr>ip = ''1.2.3.4'', method = ''GET'', url = ''/index.html'',
                 date = ''10/Oct/2020:13:55:36'', duration = 150\<rparr>)"
  by code_simp

section \<open>Properties of the driver\<close>

lemma exit_status_success:
  "main files writable input output = (events, Inr returned) \<Longrightarrow>
   exit_status files writable input output = 0"
  by (simp add: exit_status_def)

text \<open>
  C6: when the input path is neither a file nor a directory, \<open>main\<close> prints the
  message and returns 1, but the script drops that value: the exit status is 0, where the
  claim has a non-zero one.
\<close>

theorem invalid_path_exit_status:
  "main (files(input := None)) writable input output = ([Print_invalid_path], Inr (Some 1)) \<and>
   exit_status (files(input := None)) writable input output = 0"
  by (simp add: main_def exit_status_def isfile_def isdir_def)

end
